theory Spec2Isabelle
  imports Main
begin

section \<open>Topology: the module-level tables of australia.py\<close>

text \<open>
  \<^verbatim>\<open>ADJACENT_STATES\<close> is a dict literal with seven distinct keys; it is kept as the
  association list of its entries, in the order of the source. \<^verbatim>\<open>VALID_STATES\<close> is
  the list of the source.
\<close>

definition ADJACENT_STATES :: "(string \<times> string list) list" where
  "ADJACENT_STATES =
     [(''NSW'', [''QLD'', ''VIC'', ''SA'']),
      (''QLD'', [''NSW'', ''NT'', ''SA'']),
      (''VIC'', [''NSW'', ''SA'']),
      (''TAS'', []),
      (''SA'', [''WA'', ''NT'', ''QLD'', ''NSW'', ''VIC'']),
      (''NT'', [''WA'', ''QLD'', ''SA'']),
      (''WA'', [''NT'', ''SA''])]"

definition VALID_STATES :: "string list" where
  "VALID_STATES = [''NSW'', ''QLD'', ''VIC'', ''TAS'', ''SA'', ''NT'', ''WA'']"

text \<open>The only exception the relocation code can raise: a dict subscript on a missing key.\<close>

datatype error = KeyError

text \<open>The subscript \<^verbatim>\<open>ADJACENT_STATES[state]\<close>.\<close>

definition adjacent_of :: "string \<Rightarrow> error + string list" where
  "adjacent_of st =
     (case map_of ADJACENT_STATES st of
        None \<Rightarrow> Inl KeyError
      | Some adjacent \<Rightarrow> Inr adjacent)"

text \<open>
  The pairs \<open>(s, t)\<close> of the table where \<open>t\<close> is listed under \<open>s\<close> but \<open>s\<close> is not
  listed under \<open>t\<close> (a key that is absent lists nothing).
\<close>

definition listed_under :: "(string \<times> string list) list \<Rightarrow> string \<Rightarrow> string \<Rightarrow> bool" where
  "listed_under tab s t = (case map_of tab s of None \<Rightarrow> False | Some adjacent \<Rightarrow> t \<in> set adjacent)"

definition asymmetric_pairs :: "(string \<times> string list) list \<Rightarrow> (string \<times> string) list" where
  "asymmetric_pairs tab =
     concat (map (\<lambda>(s, adjacent). map (\<lambda>t. (s, t)) (filter (\<lambda>t. \<not> listed_under tab t s) adjacent)) tab)"

section \<open>Entities: class FictionalAnimal\<close>

record FictionalAnimal =
  name :: string
  habitat :: string
  threat :: string
  state :: string

text \<open>
  \<^verbatim>\<open>str.strip()\<close> with no argument removes leading and trailing whitespace. Characters
  are the code points below 256; Python's whitespace among them is 9..13, 28..31, 32, 133
  and 160.
\<close>

definition is_space :: "char \<Rightarrow> bool" where
  "is_space c =
     (let n = (of_char c :: nat)
      in (9 \<le> n \<and> n \<le> 13) \<or> (28 \<le> n \<and> n \<le> 32) \<or> n = 133 \<or> n = 160)"

definition strip :: "string \<Rightarrow> string" where
  "strip s = rev (dropWhile is_space (rev (dropWhile is_space s)))"

text \<open>\<^verbatim>\<open>FictionalAnimal.__init__\<close>: the three fields trimmed, the state \<^verbatim>\<open>'ACT'\<close>.\<close>

definition FictionalAnimal_init :: "string \<Rightarrow> string \<Rightarrow> string \<Rightarrow> FictionalAnimal" where
  "FictionalAnimal_init n h t =
     \<lparr>name = strip n, habitat = strip h, threat = strip t, state = ''ACT''\<rparr>"

definition get_state :: "FictionalAnimal \<Rightarrow> string" where
  "get_state a = state a"

text \<open>\<^verbatim>\<open>set_state\<close>: the object after the call (the method returns nothing and raises nothing).\<close>

definition set_state :: "FictionalAnimal \<Rightarrow> string \<Rightarrow> FictionalAnimal" where
  "set_state a st = (if st \<in> set VALID_STATES then a\<lparr>state := st\<rparr> else a)"

section \<open>The loader: FictionalAnimal.load_dataset\<close>

text \<open>\<^verbatim>\<open>s.split(',')\<close>: the fields between the commas; the empty string gives one empty field.\<close>

fun split_comma :: "string \<Rightarrow> string list" where
  "split_comma [] = [[]]"
| "split_comma (c # cs) =
     (if c = CHR '','' then [] # split_comma cs
      else (case split_comma cs of
              [] \<Rightarrow> [[c]]
            | p # ps \<Rightarrow> (c # p) # ps))"

text \<open>
  The body of \<^verbatim>\<open>for line in f\<close>, with the list \<^verbatim>\<open>animals\<close> built so far. The tuple
  assignment \<^verbatim>\<open>name, habitat, threat = parts\<close> is reached with exactly three parts only.
\<close>

fun load_lines :: "string list \<Rightarrow> FictionalAnimal list \<Rightarrow> FictionalAnimal list" where
  "load_lines [] animals = animals"
| "load_lines (line # rest) animals =
     (let parts = split_comma (strip line)
      in if length parts \<noteq> 3 then load_lines rest animals
         else (case parts of
                 [n, h, t] \<Rightarrow> load_lines rest (animals @ [FictionalAnimal_init n h t])
               | _ \<Rightarrow> load_lines rest animals))"

text \<open>
  The input source is \<open>None\<close> when \<^verbatim>\<open>os.path.exists('animals.csv')\<close> is false, and
  \<open>Some lines\<close> with the lines the file iterator yields otherwise.
\<close>

definition load_dataset :: "string list option \<Rightarrow> FictionalAnimal list" where
  "load_dataset source =
     (case source of
        None \<Rightarrow> []
      | Some lines \<Rightarrow> load_lines lines [])"

section \<open>The placement engine: relocate_animals\<close>

text \<open>
  The animals are mutable objects, and both the input list and \<^verbatim>\<open>occupied_states\<close> hold
  references to them. The store maps a reference to the object it denotes; the input list
  is a list of references, in which a reference may occur more than once.
\<close>

type_synonym ref = nat
type_synonym store = "ref \<Rightarrow> FictionalAnimal"

record relocation =
  heap :: store
  occupied_states :: "string \<rightharpoonup> ref"
  placed_animals :: "string set"

text \<open>The first inner loop over \<^verbatim>\<open>adjacent\<close>: the value of \<^verbatim>\<open>conflict\<close> after it.\<close>

fun forward_conflict :: "store \<Rightarrow> (string \<rightharpoonup> ref) \<Rightarrow> FictionalAnimal \<Rightarrow> string list \<Rightarrow> bool" where
  "forward_conflict h occ animal [] = False"
| "forward_conflict h occ animal (adj # rest) =
     (case occ adj of
        None \<Rightarrow> forward_conflict h occ animal rest
      | Some other \<Rightarrow>
          if name (h other) = threat animal then True
          else forward_conflict h occ animal rest)"

text \<open>The second inner loop over \<^verbatim>\<open>adjacent\<close> (the reverse threat).\<close>

fun reverse_conflict :: "store \<Rightarrow> (string \<rightharpoonup> ref) \<Rightarrow> FictionalAnimal \<Rightarrow> string list \<Rightarrow> bool" where
  "reverse_conflict h occ animal [] = False"
| "reverse_conflict h occ animal (adj # rest) =
     (case occ adj of
        None \<Rightarrow> reverse_conflict h occ animal rest
      | Some other_animal \<Rightarrow>
          if threat (h other_animal) = name animal then True
          else reverse_conflict h occ animal rest)"

text \<open>The three statements that place the animal behind reference \<open>a\<close> in \<open>st\<close>.\<close>

definition place :: "string \<Rightarrow> ref \<Rightarrow> relocation \<Rightarrow> relocation" where
  "place st a e =
     e\<lparr>heap := (heap e)(a := set_state (heap e a) st),
       occupied_states := (occupied_states e)(st \<mapsto> a),
       placed_animals := insert (name (heap e a)) (placed_animals e)\<rparr>"

text \<open>The loop \<^verbatim>\<open>for animal in animals\<close> for one state.\<close>

fun try_animals :: "string \<Rightarrow> ref list \<Rightarrow> relocation \<Rightarrow> error + relocation" where
  "try_animals st [] e = Inr e"
| "try_animals st (a # rest) e =
     (if name (heap e a) \<in> placed_animals e then try_animals st rest e
      else if occupied_states e st \<noteq> None then Inr e
      else (case adjacent_of st of
              Inl err \<Rightarrow> Inl err
            | Inr adjacent \<Rightarrow>
                if forward_conflict (heap e) (occupied_states e) (heap e a) adjacent
                then try_animals st rest e
                else if reverse_conflict (heap e) (occupied_states e) (heap e a) adjacent
                then try_animals st rest e
                else Inr (place st a e)))"

text \<open>The loop \<^verbatim>\<open>for state in VALID_STATES\<close>, over the states still to come.\<close>

fun relocate_states :: "string list \<Rightarrow> ref list \<Rightarrow> relocation \<Rightarrow> error + relocation" where
  "relocate_states [] animals e = Inr e"
| "relocate_states (st # sts) animals e =
     (case try_animals st animals e of
        Inl err \<Rightarrow> Inl err
      | Inr e' \<Rightarrow> relocate_states sts animals e')"

definition start :: "store \<Rightarrow> relocation" where
  "start h = \<lparr>heap = h, occupied_states = Map.empty, placed_animals = {}\<rparr>"

text \<open>
  \<^verbatim>\<open>relocate_animals\<close>: the store after the call, together with the two local variables
  as they are when the function returns.
\<close>

definition relocate_animals :: "store \<Rightarrow> ref list \<Rightarrow> error + relocation" where
  "relocate_animals h animals = relocate_states VALID_STATES animals (start h)"

text \<open>Resetting every listed entity to the sentinel, as a caller does between two runs.\<close>

definition reset_states :: "ref list \<Rightarrow> store \<Rightarrow> store" where
  "reset_states animals h = fold (\<lambda>a h'. h'(a := (h' a)\<lparr>state := ''ACT''\<rparr>)) animals h"

section \<open>Invariants of a run\<close>

text \<open>
  \<open>frame\<close>: the engine writes the state field only, and only of objects it has placed.
  \<open>tracked\<close>: the set of placed names is the set of the occupants' names, every occupant
  is a listed object whose state is its slot, and no two slots hold the same name.
  \<open>conflict_free\<close>: no occupant of a slot threatens, or is threatened by, the occupant of
  a slot listed adjacent to it.
\<close>

definition frame :: "store \<Rightarrow> relocation \<Rightarrow> bool" where
  "frame h0 e \<longleftrightarrow> (\<forall>r. name (heap e r) = name (h0 r) \<and> threat (heap e r) = threat (h0 r) \<and>
      habitat (heap e r) = habitat (h0 r) \<and> (r \<notin> ran (occupied_states e) \<longrightarrow> state (heap e r) = state (h0 r)))"

definition tracked :: "ref list \<Rightarrow> relocation \<Rightarrow> bool" where
  "tracked rs e \<longleftrightarrow>
     placed_animals e = {name (heap e r) |r. r \<in> ran (occupied_states e)} \<and>
     (\<forall>s r. occupied_states e s = Some r \<longrightarrow>
        r \<in> set rs \<and> s \<in> set VALID_STATES \<and> state (heap e r) = s) \<and>
     (\<forall>s t a b. occupied_states e s = Some a \<and> occupied_states e t = Some b \<and>
        name (heap e a) = name (heap e b) \<longrightarrow> s = t)"

definition conflict_free :: "relocation \<Rightarrow> bool" where
  "conflict_free e \<longleftrightarrow>
     (\<forall>s t a b adjacent. occupied_states e s = Some a \<and> occupied_states e t = Some b \<and>
        adjacent_of s = Inr adjacent \<and> t \<in> set adjacent \<longrightarrow>
        name (heap e b) \<noteq> threat (heap e a) \<and> threat (heap e b) \<noteq> name (heap e a))"

text \<open>
  Two engines that hold the same assignment and the same placed names, over stores that
  agree on the name, the threat and the state of every listed object (the habitat is free).
\<close>

definition same_but_habitat :: "ref list \<Rightarrow> relocation \<Rightarrow> relocation \<Rightarrow> bool" where
  "same_but_habitat rs e1 e2 \<longleftrightarrow>
     occupied_states e1 = occupied_states e2 \<and> placed_animals e1 = placed_animals e2 \<and>
     ran (occupied_states e1) \<subseteq> set rs \<and>
     (\<forall>a\<in>set rs. name (heap e1 a) = name (heap e2 a) \<and> threat (heap e1 a) = threat (heap e2 a) \<and>
        state (heap e1 a) = state (heap e2 a))"

section \<open>Example inputs\<close>

text \<open>
  Two stores of fresh objects: the scenario of the specification (Koala, threatened by
  Dingo, behind reference 0 and Dingo behind every other reference), and the same with an
  Emu behind the references from 2 on.
\<close>

definition koala_dingo :: store where
  "koala_dingo =
     (\<lambda>r. if r = 0 then \<lparr>name = ''Koala'', habitat = ''Forest'', threat = ''Dingo'', state = ''ACT''\<rparr>
          else \<lparr>name = ''Dingo'', habitat = ''Desert'', threat = '''', state = ''ACT''\<rparr>)"

definition koala_dingo_emu :: store where
  "koala_dingo_emu =
     (\<lambda>r. if r = 0 then \<lparr>name = ''Koala'', habitat = ''Forest'', threat = ''Dingo'', state = ''ACT''\<rparr>
          else if r = 1 then \<lparr>name = ''Dingo'', habitat = ''Desert'', threat = '''', state = ''ACT''\<rparr>
          else \<lparr>name = ''Emu'', habitat = ''Grassland'', threat = '''', state = ''ACT''\<rparr>)"

text \<open>
  Two objects with the same name (references 0 and 1) before a Dingo, and the scenario of
  the specification with other habitats.
\<close>

definition koala_twins :: store where
  "koala_twins =
     (\<lambda>r. if r = 0 then \<lparr>name = ''Koala'', habitat = ''Forest'', threat = ''Dingo'', state = ''ACT''\<rparr>
          else if r = 1 then \<lparr>name = ''Koala'', habitat = ''Zoo'', threat = '''', state = ''ACT''\<rparr>
          else \<lparr>name = ''Dingo'', habitat = ''Desert'', threat = '''', state = ''ACT''\<rparr>)"

definition koala_dingo_zoo :: store where
  "koala_dingo_zoo =
     (\<lambda>r. if r = 0 then \<lparr>name = ''Koala'', habitat = ''Zoo'', threat = ''Dingo'', state = ''ACT''\<rparr>
          else \<lparr>name = ''Dingo'', habitat = ''Beach'', threat = '''', state = ''ACT''\<rparr>)"

section \<open>Facts about the topology\<close>

lemma distinct_VALID_STATES: "distinct VALID_STATES"
  by (simp add: VALID_STATES_def)

lemma adjacent_of_valid:
  "st \<in> set VALID_STATES \<Longrightarrow> \<exists>adjacent. adjacent_of st = Inr adjacent"
  by (auto simp: VALID_STATES_def adjacent_of_def ADJACENT_STATES_def)

lemma table_symmetric:
  "list_all (\<lambda>(s, adjacent). list_all (\<lambda>t. listed_under ADJACENT_STATES t s) adjacent) ADJACENT_STATES"
  by (simp add: ADJACENT_STATES_def listed_under_def)

lemma table_irreflexive:
  "list_all (\<lambda>(s, adjacent). s \<notin> set adjacent) ADJACENT_STATES"
  by (simp add: ADJACENT_STATES_def)

lemma adjacent_of_entry: "adjacent_of s = Inr as \<Longrightarrow> (s, as) \<in> set ADJACENT_STATES"
  by (auto simp: adjacent_of_def split: option.splits dest: map_of_SomeD)

lemma listed_under_adjacent_of:
  "listed_under ADJACENT_STATES t s \<longleftrightarrow> (\<exists>at. adjacent_of t = Inr at \<and> s \<in> set at)"
  by (auto simp: listed_under_def adjacent_of_def split: option.splits)

lemma adjacent_of_symmetric:
  assumes "adjacent_of s = Inr as" and "t \<in> set as"
  shows "\<exists>at. adjacent_of t = Inr at \<and> s \<in> set at"
proof -
  have "(s, as) \<in> set ADJACENT_STATES" using assms(1) by (rule adjacent_of_entry)
  with table_symmetric have "list_all (\<lambda>t. listed_under ADJACENT_STATES t s) as"
    by (auto simp: list_all_iff)
  with assms(2) have "listed_under ADJACENT_STATES t s" by (simp add: list_all_iff)
  then show ?thesis by (simp add: listed_under_adjacent_of)
qed

lemma adjacent_of_irreflexive: "adjacent_of s = Inr as \<Longrightarrow> s \<notin> set as"
  using table_irreflexive by (auto simp: list_all_iff dest!: adjacent_of_entry)

section \<open>One step of the engine\<close>

lemma set_state_fields [simp]:
  "name (set_state x st) = name x"
  "threat (set_state x st) = threat x"
  "habitat (set_state x st) = habitat x"
  by (simp_all add: set_state_def)

lemma set_state_valid: "st \<in> set VALID_STATES \<Longrightarrow> state (set_state x st) = st"
  by (simp add: set_state_def)

lemma place_sel [simp]:
  "heap (place st a e) = (heap e)(a := set_state (heap e a) st)"
  "occupied_states (place st a e) = (occupied_states e)(st \<mapsto> a)"
  "placed_animals (place st a e) = insert (name (heap e a)) (placed_animals e)"
  by (simp_all add: place_def)

lemma forward_conflict_iff:
  "forward_conflict h occ x adjacent \<longleftrightarrow>
     (\<exists>t\<in>set adjacent. \<exists>r. occ t = Some r \<and> name (h r) = threat x)"
  by (induction adjacent) (auto split: option.splits)

lemma reverse_conflict_iff:
  "reverse_conflict h occ x adjacent \<longleftrightarrow>
     (\<exists>t\<in>set adjacent. \<exists>r. occ t = Some r \<and> threat (h r) = name x)"
  by (induction adjacent) (auto split: option.splits)

lemma try_animals_cases:
  assumes "try_animals st rs e = Inr e1"
  shows "e1 = e \<or>
    (\<exists>a\<in>set rs. \<exists>adjacent. adjacent_of st = Inr adjacent \<and>
       name (heap e a) \<notin> placed_animals e \<and> occupied_states e st = None \<and>
       \<not> forward_conflict (heap e) (occupied_states e) (heap e a) adjacent \<and>
       \<not> reverse_conflict (heap e) (occupied_states e) (heap e a) adjacent \<and>
       e1 = place st a e)"
  using assms
proof (induction rs)
  case Nil
  then show ?case by simp
next
  case (Cons a rs)
  show ?case
  proof (cases "name (heap e a) \<in> placed_animals e")
    case True
    with Cons show ?thesis by auto
  next
    case unplaced: False
    show ?thesis
    proof (cases "occupied_states e st")
      case (Some b)
      with unplaced Cons.prems show ?thesis by simp
    next
      case None
      from None unplaced Cons.prems obtain adjacent where adj: "adjacent_of st = Inr adjacent"
        by (cases "adjacent_of st") auto
      show ?thesis
      proof (cases "forward_conflict (heap e) (occupied_states e) (heap e a) adjacent
                 \<or> reverse_conflict (heap e) (occupied_states e) (heap e a) adjacent")
        case True
        with None unplaced adj Cons.prems have "try_animals st rs e = Inr e1"
          by (auto split: if_splits)
        with Cons.IH show ?thesis by auto
      next
        case False
        with None unplaced adj Cons.prems have "e1 = place st a e" by auto
        with None unplaced adj False show ?thesis by auto
      qed
    qed
  qed
qed

lemma try_animals_total:
  assumes "adjacent_of st = Inr adjacent"
  shows "\<exists>e1. try_animals st rs e = Inr e1"
  using assms by (induction rs) auto

lemma relocate_states_total:
  assumes "set sts \<subseteq> set VALID_STATES"
  shows "\<exists>e'. relocate_states sts rs e = Inr e'"
  using assms
proof (induction sts arbitrary: e)
  case Nil
  then show ?case by simp
next
  case (Cons st sts)
  then have "st \<in> set VALID_STATES" by simp
  then obtain adjacent where "adjacent_of st = Inr adjacent"
    using adjacent_of_valid by blast
  then obtain e1 where "try_animals st rs e = Inr e1"
    using try_animals_total by blast
  moreover from Cons obtain e' where "relocate_states sts rs e1 = Inr e'" by auto
  ultimately show ?case by simp
qed

lemma relocate_states_append:
  "relocate_states (xs @ ys) rs e =
     (case relocate_states xs rs e of Inl err \<Rightarrow> Inl err | Inr e1 \<Rightarrow> relocate_states ys rs e1)"
  by (induction xs arbitrary: e) (auto split: sum.splits)

lemma relocate_states_invariant:
  assumes run: "relocate_states sts rs e = Inr e'"
    and init: "P e"
    and step: "\<And>st a adjacent e.
       st \<in> set sts \<Longrightarrow> a \<in> set rs \<Longrightarrow> P e \<Longrightarrow> adjacent_of st = Inr adjacent \<Longrightarrow>
       name (heap e a) \<notin> placed_animals e \<Longrightarrow> occupied_states e st = None \<Longrightarrow>
       \<not> forward_conflict (heap e) (occupied_states e) (heap e a) adjacent \<Longrightarrow>
       \<not> reverse_conflict (heap e) (occupied_states e) (heap e a) adjacent \<Longrightarrow>
       P (place st a e)"
  shows "P e'"
  using run init step
proof (induction sts arbitrary: e)
  case Nil
  then show ?case by simp
next
  case (Cons st sts)
  from Cons.prems(1) obtain e1 where t: "try_animals st rs e = Inr e1"
    and r: "relocate_states sts rs e1 = Inr e'"
    by (auto split: sum.splits)
  have "P e1"
    using try_animals_cases [OF t] Cons.prems(2) Cons.prems(3) [of st]
    by auto
  show ?case
  proof (rule Cons.IH [OF r \<open>P e1\<close>])
    fix st' a adjacent e
    assume "st' \<in> set sts" "a \<in> set rs" "P e" "adjacent_of st' = Inr adjacent"
      "name (heap e a) \<notin> placed_animals e" "occupied_states e st' = None"
      "\<not> forward_conflict (heap e) (occupied_states e) (heap e a) adjacent"
      "\<not> reverse_conflict (heap e) (occupied_states e) (heap e a) adjacent"
    then show "P (place st' a e)"
      using Cons.prems(3) [of st' a e adjacent] by simp
  qed
qed

section \<open>Preservation of the invariants\<close>

lemma frame_start: "frame h (start h)"
  by (simp add: frame_def start_def)

lemma tracked_start: "tracked rs (start h)"
  by (simp add: tracked_def start_def)

lemma conflict_free_start: "conflict_free (start h)"
  by (simp add: conflict_free_def start_def)

lemma ran_place:
  "occupied_states e st = None \<Longrightarrow> ran (occupied_states (place st a e)) = insert a (ran (occupied_states e))"
  by simp

lemma frame_place:
  assumes "frame h0 e" and "occupied_states e st = None"
  shows "frame h0 (place st a e)"
  using assms unfolding frame_def by (simp add: ran_place del: place_sel(2)) 

lemma placed_ref_differs:
  assumes "tracked rs e" and "name (heap e a) \<notin> placed_animals e" and "occupied_states e s = Some r"
  shows "r \<noteq> a"
proof
  assume "r = a"
  with assms(3) have "a \<in> ran (occupied_states e)" by (auto simp: ran_def)
  with assms(1) have "name (heap e a) \<in> placed_animals e" by (auto simp: tracked_def)
  with assms(2) show False by simp
qed

lemma tracked_place:
  assumes tr: "tracked rs e" and a: "a \<in> set rs" and st: "st \<in> set VALID_STATES"
    and un: "name (heap e a) \<notin> placed_animals e" and free: "occupied_states e st = None"
  shows "tracked rs (place st a e)"
proof -
  have diff: "\<And>s r. occupied_states e s = Some r \<Longrightarrow> r \<noteq> a"
    using placed_ref_differs [OF tr un] by blast
  have names: "\<And>r. name (heap (place st a e) r) = name (heap e r)" by simp
  have p1: "placed_animals (place st a e) =
      {name (heap (place st a e) r) |r. r \<in> ran (occupied_states (place st a e))}"
    using tr unfolding names ran_place [OF free] by (auto simp: tracked_def)
  have p2: "\<forall>s r. occupied_states (place st a e) s = Some r \<longrightarrow>
        r \<in> set rs \<and> s \<in> set VALID_STATES \<and> state (heap (place st a e) r) = s"
    using tr a st diff by (auto simp: tracked_def set_state_valid)
  have mem: "\<And>s r. occupied_states e s = Some r \<Longrightarrow> name (heap e r) \<in> placed_animals e"
    using tr by (auto simp: tracked_def ran_def)
  have p3: "\<forall>s t x y. occupied_states (place st a e) s = Some x \<and>
        occupied_states (place st a e) t = Some y \<and>
        name (heap (place st a e) x) = name (heap (place st a e) y) \<longrightarrow> s = t"
  proof (intro allI impI, elim conjE)
    fix s t x y
    assume sx: "occupied_states (place st a e) s = Some x"
      and ty: "occupied_states (place st a e) t = Some y"
      and eq: "name (heap (place st a e) x) = name (heap (place st a e) y)"
    from eq have eq': "name (heap e x) = name (heap e y)" unfolding names .
    show "s = t"
    proof (cases "s = st")
      case True
      with sx have x: "x = a" by simp
      show ?thesis
      proof (cases "t = st")
        case True
        with \<open>s = st\<close> show ?thesis by simp
      next
        case False
        with ty have "occupied_states e t = Some y" by simp
        then have "name (heap e y) \<in> placed_animals e" by (rule mem)
        with eq' x un show ?thesis by simp
      qed
    next
      case False
      with sx have sx': "occupied_states e s = Some x" by simp
      show ?thesis
      proof (cases "t = st")
        case True
        with ty have "y = a" by simp
        moreover from sx' have "name (heap e x) \<in> placed_animals e" by (rule mem)
        ultimately show ?thesis using eq' un by simp
      next
        case False
        with ty have "occupied_states e t = Some y" by simp
        with sx' eq' tr show ?thesis unfolding tracked_def by blast
      qed
    qed
  qed
  from p1 p2 p3 show ?thesis unfolding tracked_def by blast
qed

lemma conflict_free_place:
  assumes cf: "conflict_free e" and adj: "adjacent_of st = Inr adjacent"
    and free: "occupied_states e st = None"
    and fw: "\<not> forward_conflict (heap e) (occupied_states e) (heap e a) adjacent"
    and rv: "\<not> reverse_conflict (heap e) (occupied_states e) (heap e a) adjacent"
  shows "conflict_free (place st a e)"
  unfolding conflict_free_def
proof (intro allI impI, elim conjE)
  fix s t x y adjs
  assume sx: "occupied_states (place st a e) s = Some x"
    and ty: "occupied_states (place st a e) t = Some y"
    and adjs: "adjacent_of s = Inr adjs" and t: "t \<in> set adjs"
  have nm: "\<And>r. name (heap (place st a e) r) = name (heap e r)"
    and th: "\<And>r. threat (heap (place st a e) r) = threat (heap e r)"
    by simp_all
  have new: "\<And>u r. u \<in> set adjacent \<Longrightarrow> occupied_states e u = Some r \<Longrightarrow>
      name (heap e r) \<noteq> threat (heap e a) \<and> threat (heap e r) \<noteq> name (heap e a)"
    using fw rv by (auto simp: forward_conflict_iff reverse_conflict_iff)
  show "name (heap (place st a e) y) \<noteq> threat (heap (place st a e) x) \<and>
        threat (heap (place st a e) y) \<noteq> name (heap (place st a e) x)"
    unfolding nm th
  proof (cases "s = st")
    case True
    with sx have x: "x = a" by simp
    from True adjs adj have same: "adjs = adjacent" by simp
    from True adjs t have "t \<noteq> st" using adjacent_of_irreflexive by blast
    with ty have "occupied_states e t = Some y" by simp
    with t same new [of t y] x
    show "name (heap e y) \<noteq> threat (heap e x) \<and> threat (heap e y) \<noteq> name (heap e x)"
      by simp
  next
    case False
    with sx have sx': "occupied_states e s = Some x" by simp
    show "name (heap e y) \<noteq> threat (heap e x) \<and> threat (heap e y) \<noteq> name (heap e x)"
    proof (cases "t = st")
      case True
      with ty have y: "y = a" by simp
      from adjacent_of_symmetric [OF adjs t] True adj have "s \<in> set adjacent" by auto
      from new [OF this sx'] y show ?thesis by auto
    next
      case False
      with ty have "occupied_states e t = Some y" by simp
      with sx' adjs t cf show ?thesis unfolding conflict_free_def by blast
    qed
  qed
qed

lemma relocate_states_sound:
  assumes run: "relocate_states sts rs e = Inr e'"
    and sub: "set sts \<subseteq> set VALID_STATES"
    and inv: "frame h0 e \<and> tracked rs e \<and> conflict_free e \<and> dom (occupied_states e) \<subseteq> D"
  shows "frame h0 e' \<and> tracked rs e' \<and> conflict_free e' \<and> dom (occupied_states e') \<subseteq> D \<union> set sts"
proof -
  let ?P = "\<lambda>e. frame h0 e \<and> tracked rs e \<and> conflict_free e \<and>
     dom (occupied_states e) \<subseteq> D \<union> set sts"
  have "?P e'"
  proof (rule relocate_states_invariant [OF run, where P = ?P])
    show "?P e" using inv by auto
  next
    fix st a adjacent e
    assume "st \<in> set sts" "a \<in> set rs" "?P e" "adjacent_of st = Inr adjacent"
      "name (heap e a) \<notin> placed_animals e" "occupied_states e st = None"
      "\<not> forward_conflict (heap e) (occupied_states e) (heap e a) adjacent"
      "\<not> reverse_conflict (heap e) (occupied_states e) (heap e a) adjacent"
    then show "?P (place st a e)"
      using sub frame_place [of h0 e st a] tracked_place [of rs e a st]
        conflict_free_place [of e st adjacent a]
      by auto
  qed
  then show ?thesis .
qed

lemma relocate_animals_total: "\<exists>e'. relocate_animals h rs = Inr e'"
  unfolding relocate_animals_def by (rule relocate_states_total) simp

lemma relocate_animals_sound:
  assumes "relocate_animals h rs = Inr e'"
  shows "frame h e'" and "tracked rs e'" and "conflict_free e'"
  using relocate_states_sound [of VALID_STATES rs "start h" e' h "{}"] assms
    frame_start [of h] tracked_start [of rs h] conflict_free_start [of h]
  by (simp_all add: relocate_animals_def start_def)

lemma ACT_not_valid: "''ACT'' \<notin> set VALID_STATES"
  by (simp add: VALID_STATES_def)

lemma relocate_states_keeps_entry:
  assumes "relocate_states sts rs e0 = Inr e'" and "occupied_states e0 t = Some b"
  shows "occupied_states e' t = Some b"
proof (rule relocate_states_invariant [OF assms(1), where P = "\<lambda>e. occupied_states e t = Some b"])
  show "occupied_states e0 t = Some b" by (rule assms(2))
next
  fix st a adjacent and e :: relocation
  assume "occupied_states e t = Some b" "occupied_states e st = None"
  then show "occupied_states (place st a e) t = Some b" by auto
qed

lemma relocate_states_other_slot:
  assumes "relocate_states sts rs e0 = Inr e'" and "st \<notin> set sts"
  shows "occupied_states e' st = occupied_states e0 st"
proof (rule relocate_states_invariant [OF assms(1),
      where P = "\<lambda>e. occupied_states e st = occupied_states e0 st"])
  show "occupied_states e0 st = occupied_states e0 st" by simp
next
  fix st' a adjacent and e :: relocation
  assume "st' \<in> set sts" "occupied_states e st = occupied_states e0 st"
  with assms(2) show "occupied_states (place st' a e) st = occupied_states e0 st" by auto
qed

lemma frame_names:
  assumes "frame h0 e"
  shows "name (heap e r) = name (h0 r)" and "threat (heap e r) = threat (h0 r)"
    and "habitat (heap e r) = habitat (h0 r)"
  using assms by (simp_all add: frame_def)

lemma tracked_entry:
  assumes "tracked rs e" and "occupied_states e s = Some a"
  shows "a \<in> set rs" and "s \<in> set VALID_STATES" and "state (heap e a) = s"
  using assms by (auto simp: tracked_def)

lemma tracked_same_ref:
  assumes "tracked rs e" and "occupied_states e s = Some a" and "occupied_states e t = Some a"
  shows "s = t"
  using assms unfolding tracked_def by blast

lemma tracked_ran: "tracked rs e \<Longrightarrow> ran (occupied_states e) \<subseteq> set rs"
  by (auto simp: tracked_def ran_def)

lemma tracked_names:
  assumes "tracked rs e"
  shows "placed_animals e = {name (heap e a) |a. a \<in> ran (occupied_states e)}"
    and "\<And>s t a b. occupied_states e s = Some a \<Longrightarrow> occupied_states e t = Some b \<Longrightarrow>
        name (heap e a) = name (heap e b) \<Longrightarrow> s = t"
  using assms unfolding tracked_def by blast+

lemma frame_unplaced:
  assumes "frame h0 e" and "\<And>s. occupied_states e s \<noteq> Some a"
  shows "state (heap e a) = state (h0 a)"
  using assms by (auto simp: frame_def ran_def)

lemma fresh_placed:
  assumes fr: "frame h0 e" and tr: "tracked rs e" and fresh: "state (h0 a) = ''ACT''"
    and st: "state (heap e a) \<noteq> ''ACT''"
  shows "occupied_states e (state (heap e a)) = Some a"
proof -
  from frame_unplaced [OF fr, of a] fresh st obtain s where s: "occupied_states e s = Some a"
    by auto
  with tracked_entry(3) [OF tr s] show ?thesis by simp
qed

section \<open>Two runs side by side\<close>

lemma reset_states_apply:
  "reset_states rs h r = (if r \<in> set rs then (h r)\<lparr>state := ''ACT''\<rparr> else h r)"
  unfolding reset_states_def by (induction rs arbitrary: h) auto

lemma forward_conflict_agree:
  assumes "ran occ \<subseteq> S" and "\<forall>a\<in>S. name (h1 a) = name (h2 a)" and "threat x1 = threat x2"
  shows "forward_conflict h1 occ x1 adjacent = forward_conflict h2 occ x2 adjacent"
proof -
  have "name (h1 r) = name (h2 r)" if "occ t = Some r" for t r
    using ranI [of occ t r] that assms(1,2) by auto
  then show ?thesis
    unfolding forward_conflict_iff assms(3) by (metis (no_types))
qed

lemma reverse_conflict_agree:
  assumes "ran occ \<subseteq> S" and "\<forall>a\<in>S. threat (h1 a) = threat (h2 a)" and "name x1 = name x2"
  shows "reverse_conflict h1 occ x1 adjacent = reverse_conflict h2 occ x2 adjacent"
proof -
  have "threat (h1 r) = threat (h2 r)" if "occ t = Some r" for t r
    using ranI [of occ t r] that assms(1,2) by auto
  then show ?thesis
    unfolding reverse_conflict_iff assms(3) by (metis (no_types))
qed

lemma same_but_habitat_place:
  assumes "same_but_habitat rs e1 e2" and "a \<in> set rs"
  shows "same_but_habitat rs (place st a e1) (place st a e2)"
proof -
  have "ran ((occupied_states e2)(st \<mapsto> a)) \<subseteq> insert a (ran (occupied_states e2))"
    by (auto simp: ran_def)
  moreover have "ran (occupied_states e2) \<subseteq> set rs"
    using assms(1) unfolding same_but_habitat_def by (elim conjE) (erule subst)
  ultimately have "ran ((occupied_states e2)(st \<mapsto> a)) \<subseteq> set rs"
    using assms(2) by blast
  with assms show ?thesis
    unfolding same_but_habitat_def by (simp add: set_state_def)
qed

lemma try_animals_agree:
  assumes "same_but_habitat rs e1 e2" and "set as \<subseteq> set rs"
    and "try_animals st as e1 = Inr e1'"
  shows "\<exists>e2'. try_animals st as e2 = Inr e2' \<and> same_but_habitat rs e1' e2'"
  using assms(2,3)
proof (induction as)
  case Nil
  with assms(1) show ?case by simp
next
  case (Cons a as)
  then have a: "a \<in> set rs" and sub: "set as \<subseteq> set rs" by auto
  from assms(1) a have nm: "name (heap e1 a) = name (heap e2 a)"
    and th: "threat (heap e1 a) = threat (heap e2 a)"
    and occ: "occupied_states e1 = occupied_states e2"
    and pl: "placed_animals e1 = placed_animals e2"
    and rn: "ran (occupied_states e2) \<subseteq> set rs"
    and nms: "\<forall>a\<in>set rs. name (heap e1 a) = name (heap e2 a)"
    and ths: "\<forall>a\<in>set rs. threat (heap e1 a) = threat (heap e2 a)"
    by (auto simp: same_but_habitat_def)
  have fw: "forward_conflict (heap e1) (occupied_states e1) (heap e1 a) adjacent =
      forward_conflict (heap e2) (occupied_states e2) (heap e2 a) adjacent" for adjacent
    unfolding occ using forward_conflict_agree [OF rn nms th] .
  have rv: "reverse_conflict (heap e1) (occupied_states e1) (heap e1 a) adjacent =
      reverse_conflict (heap e2) (occupied_states e2) (heap e2 a) adjacent" for adjacent
    unfolding occ using reverse_conflict_agree [OF rn ths nm] .
  show ?case
  proof (cases "name (heap e1 a) \<in> placed_animals e1")
    case True
    with Cons.prems(2) have "try_animals st as e1 = Inr e1'" by simp
    from Cons.IH [OF sub this] True nm pl show ?thesis by simp
  next
    case unplaced: False
    show ?thesis
    proof (cases "occupied_states e1 st")
      case (Some b)
      with unplaced Cons.prems(2) have "e1' = e1" by simp
      with Some unplaced nm pl occ assms(1) show ?thesis by simp
    next
      case None
      from None unplaced Cons.prems(2) obtain adjacent where adj: "adjacent_of st = Inr adjacent"
        by (cases "adjacent_of st") auto
      show ?thesis
      proof (cases "forward_conflict (heap e1) (occupied_states e1) (heap e1 a) adjacent
                 \<or> reverse_conflict (heap e1) (occupied_states e1) (heap e1 a) adjacent")
        case True
        with None unplaced adj Cons.prems(2) have "try_animals st as e1 = Inr e1'"
          by (auto split: if_splits)
        from Cons.IH [OF sub this] obtain e2' where
          "try_animals st as e2 = Inr e2'" "same_but_habitat rs e1' e2'" by blast
        moreover from True fw rv have
          "forward_conflict (heap e2) (occupied_states e2) (heap e2 a) adjacent
             \<or> reverse_conflict (heap e2) (occupied_states e2) (heap e2 a) adjacent" by simp
        ultimately show ?thesis using None unplaced adj nm pl occ by auto
      next
        case False
        with None unplaced adj Cons.prems(2) have e1': "e1' = place st a e1" by auto
        from False fw rv have
          "\<not> forward_conflict (heap e2) (occupied_states e2) (heap e2 a) adjacent"
          "\<not> reverse_conflict (heap e2) (occupied_states e2) (heap e2 a) adjacent" by simp_all
        with None unplaced adj nm pl occ
        have "try_animals st (a # as) e2 = Inr (place st a e2)" by simp
        with e1' same_but_habitat_place [OF assms(1) a] show ?thesis by simp
      qed
    qed
  qed
qed

lemma relocate_states_agree:
  assumes "same_but_habitat rs e1 e2" and "relocate_states sts rs e1 = Inr e1'"
  shows "\<exists>e2'. relocate_states sts rs e2 = Inr e2' \<and> same_but_habitat rs e1' e2'"
  using assms
proof (induction sts arbitrary: e1 e2)
  case Nil
  then show ?case by simp
next
  case (Cons st sts)
  from Cons.prems(2) obtain m1 where t1: "try_animals st rs e1 = Inr m1"
    and r1: "relocate_states sts rs m1 = Inr e1'"
    by (auto split: sum.splits)
  from try_animals_agree [OF Cons.prems(1) subset_refl t1] obtain m2 where
    t2: "try_animals st rs e2 = Inr m2" and m: "same_but_habitat rs m1 m2" by blast
  from Cons.IH [OF m r1] t2 show ?case by simp
qed

section \<open>Facts about the loader\<close>

lemma split_comma_nonempty: "split_comma s \<noteq> []"
  by (induction s) (auto split: list.splits)

lemma length_split_comma: "length (split_comma s) = Suc (count_list s CHR '','')"
  by (induction s) (auto split: list.splits simp: split_comma_nonempty)

lemma load_lines_append:
  "load_lines ls animals =
     animals @ concat (map (\<lambda>line. case split_comma (strip line) of
                                     [n, hb, t] \<Rightarrow> [FictionalAnimal_init n hb t]
                                   | _ \<Rightarrow> []) ls)"
proof (induction ls arbitrary: animals)
  case Nil
  then show ?case by simp
next
  case (Cons l ls)
  show ?case
  proof (cases "length (split_comma (strip l)) = 3")
    case True
    then obtain n hb t where "split_comma (strip l) = [n, hb, t]"
      by (auto simp: length_Suc_conv numeral_3_eq_3)
    with Cons show ?thesis by simp
  next
    case False
    then have "(case split_comma (strip l) of
                  [n, hb, t] \<Rightarrow> [FictionalAnimal_init n hb t] | _ \<Rightarrow> []) = []"
      by (auto split: list.splits)
    with False Cons show ?thesis by (simp add: Let_def)
  qed
qed

lemma length_loaded:
  "length (concat (map (\<lambda>line. case split_comma (strip line) of
                                     [n, hb, t] \<Rightarrow> [FictionalAnimal_init n hb t]
                                   | _ \<Rightarrow> []) ls)) =
   length (filter (\<lambda>line. length (split_comma (strip line)) = 3) ls)"
  by (induction ls) (auto split: list.splits)

section \<open>The pairs listed in one direction only\<close>

lemma asymmetric_pairs_iff:
  assumes "distinct (map fst tab)"
  shows "set (asymmetric_pairs tab) = {(s, t). listed_under tab s t \<and> \<not> listed_under tab t s}"
proof -
  have member: "(s, t) \<in> set (asymmetric_pairs tab) \<longleftrightarrow>
      (\<exists>adjacent. (s, adjacent) \<in> set tab \<and> t \<in> set adjacent) \<and> \<not> listed_under tab t s" for s t
    unfolding asymmetric_pairs_def by auto
  have listed: "listed_under tab s t \<longleftrightarrow> (\<exists>adjacent. (s, adjacent) \<in> set tab \<and> t \<in> set adjacent)" for s t
  proof -
    have "listed_under tab s t \<longleftrightarrow> (\<exists>adjacent. map_of tab s = Some adjacent \<and> t \<in> set adjacent)"
      by (auto simp: listed_under_def split: option.splits)
    then show ?thesis by (simp add: map_of_eq_Some_iff [OF assms])
  qed
  show ?thesis
  proof (rule set_eqI)
    fix p :: "string \<times> string"
    obtain s t where p: "p = (s, t)" by (cases p)
    show "p \<in> set (asymmetric_pairs tab) \<longleftrightarrow>
        p \<in> {(s, t). listed_under tab s t \<and> \<not> listed_under tab t s}"
      unfolding p member using listed [of s t] by simp
  qed
qed

lemma listed_under_symmetric:
  "listed_under ADJACENT_STATES s t \<Longrightarrow> listed_under ADJACENT_STATES t s"
  unfolding listed_under_adjacent_of using adjacent_of_symmetric by blast

section \<open>Evaluated runs\<close>

lemma emu_run:
  "(case relocate_animals koala_dingo_emu [0, 1, 2] of
      Inl err \<Rightarrow> False
    | Inr e \<Rightarrow> map (occupied_states e) VALID_STATES = [Some 0, Some 2, None, Some 1, None, None, None]
        \<and> map (\<lambda>a. state (heap e a)) [0, 1, 2] = [''NSW'', ''TAS'', ''QLD''])"
  by code_simp

lemma emu_first:
  "(case relocate_states [''NSW''] [0, 1, 2] (start koala_dingo_emu) of
      Inl err \<Rightarrow> False
    | Inr e \<Rightarrow> map (occupied_states e) VALID_STATES = [Some 0, None, None, None, None, None, None])"
  by code_simp

lemma listed_NSW_QLD: "listed_under ADJACENT_STATES ''NSW'' ''QLD''"
  by code_simp

lemma adjacent_of_QLD: "adjacent_of ''QLD'' = Inr [''NSW'', ''NT'', ''SA'']"
  by code_simp

lemma emu_fresh: "list_all (\<lambda>a. state (koala_dingo_emu a) = ''ACT'') [0, 1, 2]"
  by code_simp

lemma koala_dingo_fresh: "list_all (\<lambda>a. state (koala_dingo a) = ''ACT'') [0, 1]"
  by code_simp

lemma koala_dingo_run:
  "(case relocate_animals koala_dingo [0, 1] of
      Inl err \<Rightarrow> False
    | Inr e \<Rightarrow> state (heap e 0) = ''NSW'' \<and> state (heap e 1) = ''TAS'')"
  by code_simp

lemma zoo_agrees:
  "list_all (\<lambda>a. name (koala_dingo a) = name (koala_dingo_zoo a) \<and>
       threat (koala_dingo a) = threat (koala_dingo_zoo a) \<and>
       state (koala_dingo a) = state (koala_dingo_zoo a)) [0, 1]"
  by code_simp

lemma zoo_differs: "habitat (koala_dingo 0) \<noteq> habitat (koala_dingo_zoo 0)"
  by code_simp

lemma twins_first:
  "(case relocate_states [''NSW''] [0, 1, 2] (start koala_twins) of
      Inl err \<Rightarrow> False
    | Inr e \<Rightarrow> name (heap e 1) \<in> placed_animals e \<and> state (heap e 1) = ''ACT'' \<and>
        occupied_states e ''NSW'' = Some 0)"
  by code_simp

section \<open>The claims\<close>

text \<open>
  C1: at each placement decision the forward and the reverse check pass for every adjacent
  slot that is already occupied. The run is cut at the slot \<open>st\<close>: \<open>e1\<close> is the engine
  when the scan of \<open>st\<close> begins (the assignment is not written during the scan until the
  placement itself), \<open>e\<close> the engine when the run returns. If \<open>st\<close> ends up occupied by
  \<open>a\<close>, then \<open>st\<close> was free at \<open>e1\<close>, both checks evaluated to no conflict for \<open>a\<close>
  there, and every adjacent slot \<open>t\<close> occupied at \<open>e1\<close> by \<open>b\<close> still holds \<open>b\<close> in the
  final assignment, where neither the name of \<open>b\<close> is the threat of \<open>a\<close> nor the threat
  of \<open>b\<close> the name of \<open>a\<close>.
\<close>

theorem placement_decision_checks:
  assumes split: "VALID_STATES = before @ st # after"
  shows "\<exists>e1 e adjacent.
     relocate_states before animals (start h) = Inr e1 \<and>
     relocate_animals h animals = Inr e \<and>
     adjacent_of st = Inr adjacent \<and>
     (\<forall>a. occupied_states e st = Some a \<longrightarrow>
        occupied_states e1 st = None \<and>
        \<not> forward_conflict (heap e1) (occupied_states e1) (heap e1 a) adjacent \<and>
        \<not> reverse_conflict (heap e1) (occupied_states e1) (heap e1 a) adjacent \<and>
        (\<forall>t b. t \<in> set adjacent \<and> occupied_states e1 t = Some b \<longrightarrow>
           occupied_states e t = Some b \<and>
           name (heap e b) \<noteq> threat (heap e a) \<and> threat (heap e b) \<noteq> name (heap e a)))"
proof -
  have sub: "set before \<subseteq> set VALID_STATES" "st \<in> set VALID_STATES"
    "set (st # after) \<subseteq> set VALID_STATES"
    unfolding split by auto
  have dist: "st \<notin> set before" "st \<notin> set after"
    using distinct_VALID_STATES unfolding split by auto
  obtain e1 where r1: "relocate_states before animals (start h) = Inr e1"
    using relocate_states_total [OF sub(1)] by blast
  obtain e where r2: "relocate_states (st # after) animals e1 = Inr e"
    using relocate_states_total [OF sub(3)] by blast
  have run: "relocate_animals h animals = Inr e"
    unfolding relocate_animals_def split relocate_states_append using r1 r2 by simp
  obtain adjacent where adj: "adjacent_of st = Inr adjacent"
    using adjacent_of_valid [OF sub(2)] by blast
  from r2 obtain e2 where t: "try_animals st animals e1 = Inr e2"
    and r3: "relocate_states after animals e2 = Inr e"
    by (auto split: sum.splits)
  have inv1: "frame h e1" "dom (occupied_states e1) \<subseteq> set before"
    using relocate_states_sound [OF r1 sub(1), of h "{}"]
      frame_start [of h] tracked_start [of animals h] conflict_free_start [of h]
    by (simp_all add: start_def)
  have fr: "frame h e" using run by (rule relocate_animals_sound)
  have free: "occupied_states e1 st = None" using inv1(2) dist(1) by auto
  have same: "occupied_states e st = occupied_states e2 st"
    using relocate_states_other_slot [OF r3 dist(2)] .
  have "\<forall>a. occupied_states e st = Some a \<longrightarrow>
        occupied_states e1 st = None \<and>
        \<not> forward_conflict (heap e1) (occupied_states e1) (heap e1 a) adjacent \<and>
        \<not> reverse_conflict (heap e1) (occupied_states e1) (heap e1 a) adjacent \<and>
        (\<forall>t b. t \<in> set adjacent \<and> occupied_states e1 t = Some b \<longrightarrow>
           occupied_states e t = Some b \<and>
           name (heap e b) \<noteq> threat (heap e a) \<and> threat (heap e b) \<noteq> name (heap e a))"
  proof (intro allI impI)
    fix a
    assume "occupied_states e st = Some a"
    with same have occ2: "occupied_states e2 st = Some a" by simp
    with free have "e2 \<noteq> e1" by auto
    with try_animals_cases [OF t] adj obtain a' where
      fw: "\<not> forward_conflict (heap e1) (occupied_states e1) (heap e1 a') adjacent"
      and rv: "\<not> reverse_conflict (heap e1) (occupied_states e1) (heap e1 a') adjacent"
      and e2: "e2 = place st a' e1"
      by auto
    from occ2 e2 have "a' = a" by simp
    note fw = fw [unfolded \<open>a' = a\<close>] and rv = rv [unfolded \<open>a' = a\<close>]
    have "\<forall>t b. t \<in> set adjacent \<and> occupied_states e1 t = Some b \<longrightarrow>
           occupied_states e t = Some b \<and>
           name (heap e b) \<noteq> threat (heap e a) \<and> threat (heap e b) \<noteq> name (heap e a)"
    proof (intro allI impI, elim conjE)
      fix t b
      assume t: "t \<in> set adjacent" and b: "occupied_states e1 t = Some b"
      have "occupied_states e t = Some b"
        using relocate_states_keeps_entry [OF r2 b] .
      moreover have "name (heap e1 b) \<noteq> threat (heap e1 a)"
        using fw t b by (auto simp: forward_conflict_iff)
      moreover have "threat (heap e1 b) \<noteq> name (heap e1 a)"
        using rv t b by (auto simp: reverse_conflict_iff)
      ultimately show "occupied_states e t = Some b \<and>
           name (heap e b) \<noteq> threat (heap e a) \<and> threat (heap e b) \<noteq> name (heap e a)"
        by (simp add: frame_names [OF fr] frame_names [OF inv1(1)])
    qed
    with free fw rv show "occupied_states e1 st = None \<and>
        \<not> forward_conflict (heap e1) (occupied_states e1) (heap e1 a) adjacent \<and>
        \<not> reverse_conflict (heap e1) (occupied_states e1) (heap e1 a) adjacent \<and>
        (\<forall>t b. t \<in> set adjacent \<and> occupied_states e1 t = Some b \<longrightarrow>
           occupied_states e t = Some b \<and>
           name (heap e b) \<noteq> threat (heap e a) \<and> threat (heap e b) \<noteq> name (heap e a))"
      by blast
  qed
  with r1 run adj show ?thesis by blast
qed

theorem placement_decision_checks_witness:
  "VALID_STATES = [''NSW''] @ ''QLD'' # [''VIC'', ''TAS'', ''SA'', ''NT'', ''WA''] \<and>
   (\<exists>e1 e adjacent.
      relocate_states [''NSW''] [0, 1, 2] (start koala_dingo_emu) = Inr e1 \<and>
      relocate_animals koala_dingo_emu [0, 1, 2] = Inr e \<and>
      adjacent_of ''QLD'' = Inr adjacent \<and>
      occupied_states e ''QLD'' = Some 2 \<and> ''NSW'' \<in> set adjacent \<and>
      occupied_states e1 ''NSW'' = Some 0 \<and>
      name (heap e 0) \<noteq> threat (heap e 2) \<and> threat (heap e 0) \<noteq> name (heap e 2))"
proof -
  have split: "VALID_STATES = [''NSW''] @ ''QLD'' # [''VIC'', ''TAS'', ''SA'', ''NT'', ''WA'']"
    by (simp add: VALID_STATES_def)
  from placement_decision_checks [OF split, of "[0, 1, 2]" koala_dingo_emu]
  obtain e1 e adjacent where r1: "relocate_states [''NSW''] [0, 1, 2] (start koala_dingo_emu) = Inr e1"
    and run: "relocate_animals koala_dingo_emu [0, 1, 2] = Inr e"
    and adj: "adjacent_of ''QLD'' = Inr adjacent"
    and chk: "\<And>a t b. occupied_states e ''QLD'' = Some a \<Longrightarrow> t \<in> set adjacent \<Longrightarrow>
        occupied_states e1 t = Some b \<Longrightarrow>
        name (heap e b) \<noteq> threat (heap e a) \<and> threat (heap e b) \<noteq> name (heap e a)"
    by blast
  from emu_run run have q: "occupied_states e ''QLD'' = Some 2"
    by (simp add: VALID_STATES_def)
  from emu_first r1 have n: "occupied_states e1 ''NSW'' = Some 0"
    by (simp add: VALID_STATES_def)
  from adj adjacent_of_QLD have "adjacent = [''NSW'', ''NT'', ''SA'']" by simp
  then have m: "''NSW'' \<in> set adjacent" by simp
  from chk [OF q m n] split r1 run adj q m n show ?thesis by blast
qed

text \<open>
  C2: every run returns, no object occupies two slots of the final assignment, and every
  occupied slot holds one listed object, whose state is that slot. When the entities all
  start at the sentinel \<^verbatim>\<open>'ACT'\<close>, as the constructor leaves them, no two distinct listed
  objects share a state other than the sentinel, and the listed objects whose state is an
  occupied slot are exactly its one occupant.
\<close>

theorem one_entity_per_slot:
  "\<exists>e. relocate_animals h animals = Inr e \<and>
    (\<forall>s t a. occupied_states e s = Some a \<and> occupied_states e t = Some a \<longrightarrow> s = t) \<and>
    (\<forall>s a. occupied_states e s = Some a \<longrightarrow> a \<in> set animals \<and> state (heap e a) = s) \<and>
    ((\<forall>a\<in>set animals. state (h a) = ''ACT'') \<longrightarrow>
       (\<forall>a\<in>set animals. \<forall>b\<in>set animals.
           a \<noteq> b \<and> state (heap e a) = state (heap e b) \<longrightarrow> state (heap e a) = ''ACT'') \<and>
       (\<forall>s a. occupied_states e s = Some a \<longrightarrow>
           (\<forall>b\<in>set animals. state (heap e b) = s \<longleftrightarrow> b = a)))"
proof -
  obtain e where run: "relocate_animals h animals = Inr e"
    using relocate_animals_total by blast
  have fr: "frame h e" and tr: "tracked animals e"
    using run by (rule relocate_animals_sound)+
  have p1: "\<forall>s t a. occupied_states e s = Some a \<and> occupied_states e t = Some a \<longrightarrow> s = t"
    using tracked_same_ref [OF tr] by blast
  have p2: "\<forall>s a. occupied_states e s = Some a \<longrightarrow> a \<in> set animals \<and> state (heap e a) = s"
    using tracked_entry(1,3) [OF tr] by blast
  have p3: "(\<forall>a\<in>set animals. \<forall>b\<in>set animals.
           a \<noteq> b \<and> state (heap e a) = state (heap e b) \<longrightarrow> state (heap e a) = ''ACT'') \<and>
       (\<forall>s a. occupied_states e s = Some a \<longrightarrow>
           (\<forall>b\<in>set animals. state (heap e b) = s \<longleftrightarrow> b = a))"
    if fresh: "\<forall>a\<in>set animals. state (h a) = ''ACT''"
  proof -
    have placed: "\<And>a. a \<in> set animals \<Longrightarrow> state (heap e a) \<noteq> ''ACT'' \<Longrightarrow>
        occupied_states e (state (heap e a)) = Some a"
      using fresh_placed [OF fr tr] fresh by blast
    have q1: "\<forall>a\<in>set animals. \<forall>b\<in>set animals.
          a \<noteq> b \<and> state (heap e a) = state (heap e b) \<longrightarrow> state (heap e a) = ''ACT''"
    proof (intro ballI impI, elim conjE, rule ccontr)
      fix a b
      assume a: "a \<in> set animals" and b: "b \<in> set animals" and ne: "a \<noteq> b"
        and eq: "state (heap e a) = state (heap e b)" and na: "state (heap e a) \<noteq> ''ACT''"
      from placed [OF a na] have "occupied_states e (state (heap e a)) = Some a" .
      moreover from placed [OF b] na eq have "occupied_states e (state (heap e a)) = Some b"
        by simp
      ultimately show False using ne by simp
    qed
    have q2: "\<forall>s a. occupied_states e s = Some a \<longrightarrow>
          (\<forall>b\<in>set animals. state (heap e b) = s \<longleftrightarrow> b = a)"
    proof (intro allI impI ballI)
      fix s a b
      assume sa: "occupied_states e s = Some a" and b: "b \<in> set animals"
      have s: "s \<noteq> ''ACT''" using tracked_entry(2) [OF tr sa] ACT_not_valid by auto
      show "state (heap e b) = s \<longleftrightarrow> b = a"
      proof
        assume eq: "state (heap e b) = s"
        with placed [OF b] s have "occupied_states e s = Some b" by simp
        with sa show "b = a" by simp
      next
        assume "b = a"
        with tracked_entry(3) [OF tr sa] show "state (heap e b) = s" by simp
      qed
    qed
    from q1 q2 show ?thesis by blast
  qed
  from run p1 p2 p3 show ?thesis by blast
qed

theorem one_entity_per_slot_witness:
  "list_all (\<lambda>a. state (koala_dingo_emu a) = ''ACT'') [0, 1, 2] \<and>
   (\<exists>e. relocate_animals koala_dingo_emu [0, 1, 2] = Inr e \<and>
      occupied_states e ''QLD'' = Some 2 \<and> state (heap e 2) = ''QLD'' \<and>
      state (heap e 0) \<noteq> ''QLD'' \<and> state (heap e 1) \<noteq> ''QLD'')"
proof -
  have fresh: "\<forall>a\<in>set [0, 1, 2]. state (koala_dingo_emu a) = ''ACT''"
    using emu_fresh by (simp add: list_all_iff)
  from one_entity_per_slot [of koala_dingo_emu "[0, 1, 2]"]
  obtain e where run: "relocate_animals koala_dingo_emu [0, 1, 2] = Inr e"
    and cond: "(\<forall>a\<in>set [0, 1, 2]. state (koala_dingo_emu a) = ''ACT'') \<longrightarrow>
       (\<forall>a\<in>set [0, 1, 2]. \<forall>b\<in>set [0, 1, 2].
           a \<noteq> b \<and> state (heap e a) = state (heap e b) \<longrightarrow> state (heap e a) = ''ACT'') \<and>
       (\<forall>s a. occupied_states e s = Some a \<longrightarrow>
           (\<forall>b\<in>set [0, 1, 2]. state (heap e b) = s \<longleftrightarrow> b = a))"
    by (elim exE conjE)
  from cond fresh have all: "\<forall>s a. occupied_states e s = Some a \<longrightarrow>
           (\<forall>b\<in>set [0, 1, 2]. state (heap e b) = s \<longleftrightarrow> b = a)"
    by (elim impE conjE)
  note one = all [rule_format]
  from emu_run run have q: "occupied_states e ''QLD'' = Some 2"
    by (simp add: VALID_STATES_def)
  from one [OF q, of 2] one [OF q, of 0] one [OF q, of 1]
  have "state (heap e 2) = ''QLD''" "state (heap e 0) \<noteq> ''QLD''" "state (heap e 1) \<noteq> ''QLD''"
    by simp_all
  with emu_fresh run q show ?thesis by blast
qed

text \<open>
  C3: the scenario Koala (threat Dingo), Dingo (no threat), with the enumeration and the
  table of the source. After the slot NSW the Koala occupies NSW; when the Dingo is tried
  at QLD, and then at VIC, the forward check finds no conflict and the reverse check finds
  one, so that the Dingo is still unplaced after QLD and after VIC; the run ends with the
  Koala at NSW and the Dingo at TAS, and no other slot occupied.
\<close>

theorem koala_dingo_scenario:
  "VALID_STATES = [''NSW'', ''QLD'', ''VIC'', ''TAS'', ''SA'', ''NT'', ''WA''] \<and>
   (case relocate_states [''NSW''] [0, 1] (start koala_dingo) of
      Inl err \<Rightarrow> False
    | Inr e1 \<Rightarrow>
        map (occupied_states e1) VALID_STATES = [Some 0, None, None, None, None, None, None] \<and>
        (case adjacent_of ''QLD'' of
           Inl err \<Rightarrow> False
         | Inr adjacent \<Rightarrow>
             \<not> forward_conflict (heap e1) (occupied_states e1) (heap e1 1) adjacent \<and>
             reverse_conflict (heap e1) (occupied_states e1) (heap e1 1) adjacent)) \<and>
   (case relocate_states [''NSW'', ''QLD''] [0, 1] (start koala_dingo) of
      Inl err \<Rightarrow> False
    | Inr e2 \<Rightarrow>
        map (occupied_states e2) VALID_STATES = [Some 0, None, None, None, None, None, None] \<and>
        state (heap e2 1) = ''ACT'' \<and>
        (case adjacent_of ''VIC'' of
           Inl err \<Rightarrow> False
         | Inr adjacent \<Rightarrow>
             \<not> forward_conflict (heap e2) (occupied_states e2) (heap e2 1) adjacent \<and>
             reverse_conflict (heap e2) (occupied_states e2) (heap e2 1) adjacent)) \<and>
   (case relocate_states [''NSW'', ''QLD'', ''VIC''] [0, 1] (start koala_dingo) of
      Inl err \<Rightarrow> False
    | Inr e3 \<Rightarrow>
        map (occupied_states e3) VALID_STATES = [Some 0, None, None, None, None, None, None] \<and>
        state (heap e3 1) = ''ACT'') \<and>
   (case relocate_animals koala_dingo [0, 1] of
      Inl err \<Rightarrow> False
    | Inr e \<Rightarrow>
        map (occupied_states e) VALID_STATES = [Some 0, None, None, Some 1, None, None, None] \<and>
        state (heap e 0) = ''NSW'' \<and> state (heap e 1) = ''TAS'')"
  by code_simp

text \<open>
  C4, as the table has it: the stored adjacency relation is symmetric. Whenever \<open>t\<close> is
  listed among the adjacent slots of \<open>s\<close>, \<open>s\<close> is listed among those of \<open>t\<close>; and
  \<open>asymmetric_pairs\<close> lists exactly the pairs listed in one direction only.
\<close>

theorem adjacency_table_symmetric:
  "(\<forall>s t. listed_under ADJACENT_STATES s t \<longrightarrow> listed_under ADJACENT_STATES t s) \<and>
   set (asymmetric_pairs ADJACENT_STATES) =
     {(s, t). listed_under ADJACENT_STATES s t \<and> \<not> listed_under ADJACENT_STATES t s}"
proof -
  have "distinct (map fst ADJACENT_STATES)" by (simp add: ADJACENT_STATES_def)
  from asymmetric_pairs_iff [OF this] listed_under_symmetric show ?thesis by blast
qed

theorem adjacency_table_symmetric_witness:
  "listed_under ADJACENT_STATES ''NSW'' ''QLD'' \<and> listed_under ADJACENT_STATES ''QLD'' ''NSW''"
  using adjacency_table_symmetric listed_NSW_QLD by blast

text \<open>
  C4 as stated asks for a pair listed in one direction only: the table has none.
\<close>

theorem no_asymmetric_pair: "asymmetric_pairs ADJACENT_STATES = []"
  by (simp add: asymmetric_pairs_def ADJACENT_STATES_def listed_under_def)

text \<open>
  C5: \<^verbatim>\<open>set_state\<close> with a state outside \<^verbatim>\<open>VALID_STATES\<close> leaves the object as it is,
  and with a state inside sets the state field to it; a new object has the state
  \<^verbatim>\<open>'ACT'\<close>; a run returns, and every object whose state was the sentinel or a valid
  state before the run has the sentinel or a valid state after it.
\<close>

theorem set_state_guard:
  "(st \<notin> set VALID_STATES \<longrightarrow> set_state x st = x) \<and>
   (st \<in> set VALID_STATES \<longrightarrow> set_state x st = x\<lparr>state := st\<rparr>) \<and>
   state (FictionalAnimal_init n hb t) = ''ACT'' \<and>
   (\<exists>e. relocate_animals h animals = Inr e \<and>
      (\<forall>a. state (h a) \<in> insert ''ACT'' (set VALID_STATES) \<longrightarrow>
           state (heap e a) \<in> insert ''ACT'' (set VALID_STATES)))"
proof -
  obtain e where run: "relocate_animals h animals = Inr e"
    using relocate_animals_total by blast
  have fr: "frame h e" and tr: "tracked animals e"
    using run by (rule relocate_animals_sound)+
  have "\<forall>a. state (h a) \<in> insert ''ACT'' (set VALID_STATES) \<longrightarrow>
           state (heap e a) \<in> insert ''ACT'' (set VALID_STATES)"
  proof (intro allI impI)
    fix a
    assume init: "state (h a) \<in> insert ''ACT'' (set VALID_STATES)"
    show "state (heap e a) \<in> insert ''ACT'' (set VALID_STATES)"
    proof (cases "\<exists>s. occupied_states e s = Some a")
      case True
      then obtain s where s: "occupied_states e s = Some a" by blast
      from tracked_entry(2,3) [OF tr s] show ?thesis by simp
    next
      case False
      with frame_unplaced [OF fr, of a] init show ?thesis by simp
    qed
  qed
  with run show ?thesis
    by (simp add: set_state_def FictionalAnimal_init_def)
qed

theorem set_state_guard_witness:
  "''ACT'' \<notin> set VALID_STATES \<and> set_state (koala_dingo 0) ''ACT'' = koala_dingo 0 \<and>
   ''NSW'' \<in> set VALID_STATES \<and>
   set_state (koala_dingo 0) ''NSW'' = (koala_dingo 0)\<lparr>state := ''NSW''\<rparr> \<and>
   state (koala_dingo 1) \<in> insert ''ACT'' (set VALID_STATES) \<and>
   (\<exists>e. relocate_animals koala_dingo [0, 1] = Inr e \<and>
      state (heap e 1) \<in> insert ''ACT'' (set VALID_STATES))"
proof -
  have out: "''ACT'' \<notin> set VALID_STATES" and inside: "''NSW'' \<in> set VALID_STATES"
    by (simp_all add: VALID_STATES_def)
  have init: "state (koala_dingo 1) \<in> insert ''ACT'' (set VALID_STATES)"
    by (simp add: koala_dingo_def)
  from set_state_guard [of "''ACT''" "koala_dingo 0" "[]" "[]" "[]" koala_dingo "[0, 1]"] out
  have a: "set_state (koala_dingo 0) ''ACT'' = koala_dingo 0" by blast
  from set_state_guard [of "''NSW''" "koala_dingo 0" "[]" "[]" "[]" koala_dingo "[0, 1]"] inside
  have b: "set_state (koala_dingo 0) ''NSW'' = (koala_dingo 0)\<lparr>state := ''NSW''\<rparr>" by blast
  from set_state_guard [of "''NSW''" "koala_dingo 0" "[]" "[]" "[]" koala_dingo "[0, 1]"] init
  have c: "\<exists>e. relocate_animals koala_dingo [0, 1] = Inr e \<and>
      state (heap e 1) \<in> insert ''ACT'' (set VALID_STATES)" by blast
  from out inside init a b c show ?thesis by blast
qed

text \<open>
  C6: a run on fresh entities changes nothing that a reset of the states does not undo:
  resetting every listed object to \<^verbatim>\<open>'ACT'\<close> after the run gives back the store the run
  started from, and a second run on it returns the same engine (the same store, the same
  assignment, the same placed names) as the first. The two locals are created empty by
  each call.
\<close>

theorem rerun_after_reset:
  assumes fresh: "\<forall>a\<in>set animals. state (h a) = ''ACT''"
  shows "\<exists>e. relocate_animals h animals = Inr e \<and>
     reset_states animals (heap e) = h \<and>
     relocate_animals (reset_states animals (heap e)) animals = Inr e"
proof -
  obtain e where run: "relocate_animals h animals = Inr e"
    using relocate_animals_total by blast
  have fr: "frame h e" and tr: "tracked animals e"
    using run by (rule relocate_animals_sound)+
  have "reset_states animals (heap e) r = h r" for r
  proof (cases "r \<in> set animals")
    case True
    with fresh have "state (h r) = ''ACT''" by simp
    with True show ?thesis
      by (simp add: reset_states_apply frame_names [OF fr])
  next
    case False
    with tracked_ran [OF tr] have "r \<notin> ran (occupied_states e)" by auto
    with fr have "state (heap e r) = state (h r)" by (simp add: frame_def)
    with False show ?thesis
      by (simp add: reset_states_apply frame_names [OF fr])
  qed
  then have "reset_states animals (heap e) = h" by (rule ext)
  with run show ?thesis by simp
qed

theorem rerun_after_reset_witness:
  "list_all (\<lambda>a. state (koala_dingo a) = ''ACT'') [0, 1] \<and>
   (\<exists>e. relocate_animals koala_dingo [0, 1] = Inr e \<and>
      relocate_animals (reset_states [0, 1] (heap e)) [0, 1] = Inr e \<and>
      state (heap e 0) = ''NSW'' \<and> state (heap e 1) = ''TAS'')"
proof -
  have fresh: "\<forall>a\<in>set [0, 1]. state (koala_dingo a) = ''ACT''"
    using koala_dingo_fresh by (simp add: list_all_iff)
  from rerun_after_reset [OF fresh]
  obtain e where run: "relocate_animals koala_dingo [0, 1] = Inr e"
    and again: "relocate_animals (reset_states [0, 1] (heap e)) [0, 1] = Inr e"
    by blast
  from koala_dingo_run run have "state (heap e 0) = ''NSW''" "state (heap e 1) = ''TAS''"
    by simp_all
  with koala_dingo_fresh run again show ?thesis by blast
qed

text \<open>
  C7: with no input source the loader returns the empty list, raising nothing. Otherwise
  it returns, in the order of the lines, one entity for each line whose stripped text
  splits at the commas into exactly three fields, and nothing for any other line; so the
  number of entities is the number of such lines. The number of fields of a text is one
  more than its number of commas.
\<close>

theorem load_dataset_drops_malformed:
  "load_dataset None = [] \<and>
   load_dataset (Some ls) =
     concat (map (\<lambda>line. case split_comma (strip line) of
                            [n, hb, t] \<Rightarrow> [FictionalAnimal_init n hb t]
                          | _ \<Rightarrow> []) ls) \<and>
   length (load_dataset (Some ls)) =
     length (filter (\<lambda>line. length (split_comma (strip line)) = 3) ls) \<and>
   length (split_comma s) = Suc (count_list s CHR '','')"
  by (simp add: load_dataset_def load_lines_append length_loaded length_split_comma)

theorem load_dataset_drops_malformed_witness:
  "load_dataset (Some [''Koala,Forest,Dingo'' @ [CHR 0x0A], ''Fox,Forest'' @ [CHR 0x0A],
       '' Dingo , Desert,'']) =
     [\<lparr>name = ''Koala'', habitat = ''Forest'', threat = ''Dingo'', state = ''ACT''\<rparr>,
      \<lparr>name = ''Dingo'', habitat = ''Desert'', threat = '''', state = ''ACT''\<rparr>]"
  using load_dataset_drops_malformed
    [of "[''Koala,Forest,Dingo'' @ [CHR 0x0A], ''Fox,Forest'' @ [CHR 0x0A], '' Dingo , Desert,'']"]
  by (simp add: strip_def is_space_def FictionalAnimal_init_def)

text \<open>
  C8: two runs over the same list of references, on stores that agree on the name, the
  threat and the state of every listed object and may differ in the habitats, both return,
  with the same assignment, the same placed names and the same state for every listed
  object; the habitats are as they were in each store.
\<close>

theorem habitat_never_influences_placement:
  assumes same: "\<forall>a\<in>set animals. name (h1 a) = name (h2 a) \<and> threat (h1 a) = threat (h2 a) \<and>
      state (h1 a) = state (h2 a)"
  shows "\<exists>e1 e2. relocate_animals h1 animals = Inr e1 \<and> relocate_animals h2 animals = Inr e2 \<and>
     occupied_states e1 = occupied_states e2 \<and> placed_animals e1 = placed_animals e2 \<and>
     (\<forall>a\<in>set animals. state (heap e1 a) = state (heap e2 a) \<and>
        habitat (heap e1 a) = habitat (h1 a) \<and> habitat (heap e2 a) = habitat (h2 a))"
proof -
  obtain e1 where run1: "relocate_animals h1 animals = Inr e1"
    using relocate_animals_total by blast
  have init: "same_but_habitat animals (start h1) (start h2)"
    using same by (simp add: same_but_habitat_def start_def)
  from relocate_states_agree [OF init run1 [unfolded relocate_animals_def]]
  obtain e2 where run2: "relocate_animals h2 animals = Inr e2"
    and rel: "same_but_habitat animals e1 e2"
    unfolding relocate_animals_def by blast
  have f1: "frame h1 e1" using run1 by (rule relocate_animals_sound)
  have f2: "frame h2 e2" using run2 by (rule relocate_animals_sound)
  from rel have "occupied_states e1 = occupied_states e2" "placed_animals e1 = placed_animals e2"
    "\<forall>a\<in>set animals. state (heap e1 a) = state (heap e2 a)"
    by (auto simp: same_but_habitat_def)
  with run1 run2 show ?thesis
    by (simp add: frame_names [OF f1] frame_names [OF f2])
qed

theorem habitat_never_influences_placement_witness:
  "list_all (\<lambda>a. name (koala_dingo a) = name (koala_dingo_zoo a) \<and>
       threat (koala_dingo a) = threat (koala_dingo_zoo a) \<and>
       state (koala_dingo a) = state (koala_dingo_zoo a)) [0, 1] \<and>
   habitat (koala_dingo 0) \<noteq> habitat (koala_dingo_zoo 0) \<and>
   (\<exists>e1 e2. relocate_animals koala_dingo [0, 1] = Inr e1 \<and>
      relocate_animals koala_dingo_zoo [0, 1] = Inr e2 \<and>
      occupied_states e1 = occupied_states e2 \<and>
      state (heap e2 0) = ''NSW'' \<and> state (heap e2 1) = ''TAS'')"
proof -
  have same: "\<forall>a\<in>set [0, 1]. name (koala_dingo a) = name (koala_dingo_zoo a) \<and>
       threat (koala_dingo a) = threat (koala_dingo_zoo a) \<and>
       state (koala_dingo a) = state (koala_dingo_zoo a)"
    using zoo_agrees by (simp add: list_all_iff)
  from habitat_never_influences_placement [OF same]
  obtain e1 e2 where run1: "relocate_animals koala_dingo [0, 1] = Inr e1"
    and run2: "relocate_animals koala_dingo_zoo [0, 1] = Inr e2"
    and occ: "occupied_states e1 = occupied_states e2"
    and st: "\<And>a. a \<in> set [0, 1] \<Longrightarrow> state (heap e1 a) = state (heap e2 a)"
    by blast
  from koala_dingo_run run1 have "state (heap e1 0) = ''NSW''" "state (heap e1 1) = ''TAS''"
    by simp_all
  with st [of 0] st [of 1] have "state (heap e2 0) = ''NSW''" "state (heap e2 1) = ''TAS''"
    by simp_all
  with zoo_agrees zoo_differs run1 run2 occ show ?thesis by blast
qed

text \<open>
  C9: the stored adjacency table is symmetric, and the final assignment of any run is free
  of conflicts in both directions: for two occupied slots of which either is listed
  adjacent to the other, neither occupant's threat is the other occupant's name.
\<close>

theorem final_assignment_conflict_free:
  "(\<forall>s t. listed_under ADJACENT_STATES s t \<longrightarrow> listed_under ADJACENT_STATES t s) \<and>
   (\<exists>e. relocate_animals h animals = Inr e \<and>
     (\<forall>s t a b. occupied_states e s = Some a \<and> occupied_states e t = Some b \<and>
        (listed_under ADJACENT_STATES s t \<or> listed_under ADJACENT_STATES t s) \<longrightarrow>
        threat (heap e a) \<noteq> name (heap e b) \<and> threat (heap e b) \<noteq> name (heap e a)))"
proof -
  have sym: "\<forall>s t. listed_under ADJACENT_STATES s t \<longrightarrow> listed_under ADJACENT_STATES t s"
    unfolding listed_under_adjacent_of using adjacent_of_symmetric by blast
  obtain e where run: "relocate_animals h animals = Inr e"
    using relocate_animals_total by blast
  have cf: "conflict_free e" using run by (rule relocate_animals_sound)
  have "\<forall>s t a b. occupied_states e s = Some a \<and> occupied_states e t = Some b \<and>
        (listed_under ADJACENT_STATES s t \<or> listed_under ADJACENT_STATES t s) \<longrightarrow>
        threat (heap e a) \<noteq> name (heap e b) \<and> threat (heap e b) \<noteq> name (heap e a)"
  proof (intro allI impI, elim conjE)
    fix s t a b
    assume sa: "occupied_states e s = Some a" and tb: "occupied_states e t = Some b"
      and "listed_under ADJACENT_STATES s t \<or> listed_under ADJACENT_STATES t s"
    with sym have "listed_under ADJACENT_STATES s t" by blast
    then obtain adjacent where "adjacent_of s = Inr adjacent" "t \<in> set adjacent"
      unfolding listed_under_adjacent_of by blast
    with cf sa tb have "name (heap e b) \<noteq> threat (heap e a) \<and> threat (heap e b) \<noteq> name (heap e a)"
      unfolding conflict_free_def by blast
    then show "threat (heap e a) \<noteq> name (heap e b) \<and> threat (heap e b) \<noteq> name (heap e a)"
      by auto
  qed
  with sym run show ?thesis by blast
qed

theorem final_assignment_conflict_free_witness:
  "\<exists>e. relocate_animals koala_dingo_emu [0, 1, 2] = Inr e \<and>
     occupied_states e ''NSW'' = Some 0 \<and> occupied_states e ''QLD'' = Some 2 \<and>
     listed_under ADJACENT_STATES ''NSW'' ''QLD'' \<and>
     threat (heap e 0) \<noteq> name (heap e 2) \<and> threat (heap e 2) \<noteq> name (heap e 0)"
proof -
  from final_assignment_conflict_free [of koala_dingo_emu "[0, 1, 2]"]
  obtain e where run: "relocate_animals koala_dingo_emu [0, 1, 2] = Inr e"
    and cf: "\<And>s t a b. occupied_states e s = Some a \<Longrightarrow> occupied_states e t = Some b \<Longrightarrow>
        listed_under ADJACENT_STATES s t \<Longrightarrow>
        threat (heap e a) \<noteq> name (heap e b) \<and> threat (heap e b) \<noteq> name (heap e a)"
    by blast
  from emu_run run have occ: "occupied_states e ''NSW'' = Some 0" "occupied_states e ''QLD'' = Some 2"
    by (simp_all add: VALID_STATES_def)
  from cf [OF occ listed_NSW_QLD] run occ listed_NSW_QLD show ?thesis by blast
qed

text \<open>
  C10: placement is tracked by name. An entity whose name is among the placed names is
  passed over by the scan. The run is cut between two slots, \<open>e1\<close> being the engine
  there: the names placed at \<open>e1\<close> stay placed, and every object with such a name is the
  same object at the end of the run as at \<open>e1\<close> and occupies no slot it did not occupy at
  \<open>e1\<close>. At the end the placed names are the names of the occupants, and two slots whose
  occupants have the same name are one slot with one occupant.
\<close>

theorem placed_name_is_skipped:
  assumes split: "VALID_STATES = before @ after"
  shows "(name (heap e0 a0) \<in> placed_animals e0 \<longrightarrow>
            try_animals st0 (a0 # rest) e0 = try_animals st0 rest e0) \<and>
    (\<exists>e1 e. relocate_states before animals (start h) = Inr e1 \<and>
       relocate_animals h animals = Inr e \<and>
       placed_animals e1 \<subseteq> placed_animals e \<and>
       (\<forall>a. name (heap e1 a) \<in> placed_animals e1 \<longrightarrow>
          heap e a = heap e1 a \<and>
          (\<forall>s. occupied_states e s = Some a \<longrightarrow> occupied_states e1 s = Some a)) \<and>
       placed_animals e = {name (heap e a) |a. a \<in> ran (occupied_states e)} \<and>
       (\<forall>s t a b. occupied_states e s = Some a \<and> occupied_states e t = Some b \<and>
          name (heap e a) = name (heap e b) \<longrightarrow> s = t \<and> a = b))"
proof -
  have sub: "set before \<subseteq> set VALID_STATES" "set after \<subseteq> set VALID_STATES"
    unfolding split by auto
  obtain e1 where r1: "relocate_states before animals (start h) = Inr e1"
    using relocate_states_total [OF sub(1)] by blast
  obtain e where r2: "relocate_states after animals e1 = Inr e"
    using relocate_states_total [OF sub(2)] by blast
  have run: "relocate_animals h animals = Inr e"
    unfolding relocate_animals_def split relocate_states_append using r1 r2 by simp
  have f1: "frame h e1"
    using relocate_states_sound [OF r1 sub(1), of h "{}"]
      frame_start [of h] tracked_start [of animals h] conflict_free_start [of h]
    by (simp add: start_def)
  have tr: "tracked animals e" using run by (rule relocate_animals_sound)
  let ?P = "\<lambda>e. frame h e \<and> placed_animals e1 \<subseteq> placed_animals e \<and>
     (\<forall>a. name (h a) \<in> placed_animals e1 \<longrightarrow>
        heap e a = heap e1 a \<and> (\<forall>s. occupied_states e s = Some a \<longrightarrow> occupied_states e1 s = Some a))"
  have "?P e"
  proof (rule relocate_states_invariant [OF r2, where P = ?P])
    show "?P e1" using f1 by simp
  next
    fix st a' adjacent and m :: relocation
    assume P: "?P m" and un: "name (heap m a') \<notin> placed_animals m"
      and free: "occupied_states m st = None"
    from P have fm: "frame h m" by simp
    have fp: "frame h (place st a' m)" using frame_place [OF fm free] .
    have "heap (place st a' m) a = heap e1 a \<and>
        (\<forall>s. occupied_states (place st a' m) s = Some a \<longrightarrow> occupied_states e1 s = Some a)"
      if a: "name (h a) \<in> placed_animals e1" for a
    proof -
      from a P have "name (heap m a) \<in> placed_animals m"
        unfolding frame_names [OF fm] by blast
      with un have "a \<noteq> a'" by auto
      with P a show ?thesis by auto
    qed
    with fp P show "?P (place st a' m)" by auto
  qed
  then have keep: "\<forall>a. name (heap e1 a) \<in> placed_animals e1 \<longrightarrow>
          heap e a = heap e1 a \<and>
          (\<forall>s. occupied_states e s = Some a \<longrightarrow> occupied_states e1 s = Some a)"
    and mono: "placed_animals e1 \<subseteq> placed_animals e"
    unfolding frame_names [OF f1] by blast+
  have inj: "\<forall>s t a b. occupied_states e s = Some a \<and> occupied_states e t = Some b \<and>
          name (heap e a) = name (heap e b) \<longrightarrow> s = t \<and> a = b"
  proof (intro allI impI, elim conjE)
    fix s t a b
    assume sa: "occupied_states e s = Some a" and tb: "occupied_states e t = Some b"
      and eq: "name (heap e a) = name (heap e b)"
    from tracked_names(2) [OF tr sa tb eq] have "s = t" .
    with sa tb show "s = t \<and> a = b" by simp
  qed
  have skip: "name (heap e0 a0) \<in> placed_animals e0 \<longrightarrow>
            try_animals st0 (a0 # rest) e0 = try_animals st0 rest e0"
    by simp
  from skip r1 run mono keep tracked_names(1) [OF tr] inj show ?thesis by blast
qed

theorem placed_name_is_skipped_witness:
  "VALID_STATES = [''NSW''] @ [''QLD'', ''VIC'', ''TAS'', ''SA'', ''NT'', ''WA''] \<and>
   (\<exists>e1 e. relocate_states [''NSW''] [0, 1, 2] (start koala_twins) = Inr e1 \<and>
      relocate_animals koala_twins [0, 1, 2] = Inr e \<and>
      occupied_states e1 ''NSW'' = Some 0 \<and>
      name (heap e1 1) \<in> placed_animals e1 \<and>
      heap e 1 = heap e1 1 \<and> state (heap e 1) = ''ACT'')"
proof -
  have split: "VALID_STATES = [''NSW''] @ [''QLD'', ''VIC'', ''TAS'', ''SA'', ''NT'', ''WA'']"
    by (simp add: VALID_STATES_def)
  from placed_name_is_skipped
    [OF split, of "start koala_twins" 0 "''NSW''" "[]" "[0, 1, 2]" koala_twins, THEN conjunct2]
  obtain e1 e where r1: "relocate_states [''NSW''] [0, 1, 2] (start koala_twins) = Inr e1"
    and run: "relocate_animals koala_twins [0, 1, 2] = Inr e"
    and keep': "\<forall>a. name (heap e1 a) \<in> placed_animals e1 \<longrightarrow>
          heap e a = heap e1 a \<and>
          (\<forall>s. occupied_states e s = Some a \<longrightarrow> occupied_states e1 s = Some a)"
    by (elim exE conjE)
  have keep: "name (heap e1 a) \<in> placed_animals e1 \<Longrightarrow> heap e a = heap e1 a" for a
    using keep' by simp
  from twins_first r1 have m: "name (heap e1 1) \<in> placed_animals e1"
    and s: "state (heap e1 1) = ''ACT''" and n: "occupied_states e1 ''NSW'' = Some 0"
    by simp_all
  from keep [OF m] s have "heap e 1 = heap e1 1" "state (heap e 1) = ''ACT''" by simp_all
  with split r1 run m n show ?thesis by blast
qed

end
